theory Spec2Isabelle
  imports Main "HOL-Library.Word" "HOL-Library.Signed_Division"
begin

unbundle bit_operations_syntax

section \<open>The framebuffer as byte-addressed memory\<close>

text \<open>
  \<^verbatim>\<open>fb_tux.c\<close> maps a framebuffer of \<^verbatim>\<open>FB_SIZE\<close> bytes and gets an
  \<^verbatim>\<open>unsigned char *fb\<close>.  The memory around that pointer is a function from byte
  offsets (relative to \<^verbatim>\<open>fb\<close>) to bytes; offsets below 0 and from \<^verbatim>\<open>FB_SIZE\<close> on lie
  outside the mapping, so a write that leaves the surface is visible in the model.
  C's \<^verbatim>\<open>int\<close> is the type \<open>int\<close>: the arithmetic of the renderers stays far inside 32
  bits on the coordinates they are called with, and signed overflow is undefined in C.
  The division \<^verbatim>\<open>/\<close> and the remainder \<^verbatim>\<open>%\<close> of C truncate towards zero: \<open>sdiv\<close> and
  \<open>smod\<close>.
\<close>

type_synonym fbmem = "int \<Rightarrow> 8 word"

definition FB_WIDTH :: int where "FB_WIDTH = 640"
definition FB_HEIGHT :: int where "FB_HEIGHT = 480"
definition FB_BPP :: int where "FB_BPP = 4"
definition FB_SIZE :: int where "FB_SIZE = FB_WIDTH * FB_HEIGHT * FB_BPP"

text \<open>\<^verbatim>\<open>((uint32_t *)fb)[i]\<close>, read and written, on a little-endian machine.\<close>

definition rd32 :: "fbmem \<Rightarrow> int \<Rightarrow> 32 word" where
  "rd32 fb i =
     ucast (fb (4 * i)) OR push_bit 8 (ucast (fb (4 * i + 1)))
       OR push_bit 16 (ucast (fb (4 * i + 2))) OR push_bit 24 (ucast (fb (4 * i + 3)))"

definition wr32 :: "fbmem \<Rightarrow> int \<Rightarrow> 32 word \<Rightarrow> fbmem" where
  "wr32 fb i v =
     fb(4 * i := ucast v, 4 * i + 1 := ucast (drop_bit 8 v),
        4 * i + 2 := ucast (drop_bit 16 v), 4 * i + 3 := ucast (drop_bit 24 v))"

text \<open>\<^verbatim>\<open>memset(fb, c, n)\<close>: the bytes at offsets \<open>0 \<le> a < n\<close> become \<open>c\<close>.\<close>

definition memset :: "fbmem \<Rightarrow> 8 word \<Rightarrow> int \<Rightarrow> fbmem" where
  "memset fb c n = (\<lambda>a. if 0 \<le> a \<and> a < n then c else fb a)"

text \<open>The pixel of the surface at column \<open>x\<close>, row \<open>y\<close>.\<close>

definition pixel :: "fbmem \<Rightarrow> int \<Rightarrow> int \<Rightarrow> 32 word" where
  "pixel fb x y = rd32 fb (y * FB_WIDTH + x)"

definition on_surface :: "int \<Rightarrow> int \<Rightarrow> bool" where
  "on_surface x y = (0 \<le> x \<and> x < FB_WIDTH \<and> 0 \<le> y \<and> y < FB_HEIGHT)"

text \<open>A byte offset outside the mapped \<^verbatim>\<open>FB_SIZE\<close> bytes.\<close>

definition outside :: "int \<Rightarrow> bool" where
  "outside a = (a < 0 \<or> FB_SIZE \<le> a)"

section \<open>Pixel drawing primitives\<close>

definition put_pixel :: "fbmem \<Rightarrow> int \<Rightarrow> int \<Rightarrow> 32 word \<Rightarrow> fbmem" where
  "put_pixel fb x y color =
     (if x < 0 \<or> x \<ge> FB_WIDTH \<or> y < 0 \<or> y \<ge> FB_HEIGHT then fb
      else wr32 fb ((y * FB_WIDTH) + x) color)"

text \<open>\<^verbatim>\<open>for (int i = i0; i < n; i++) body\<close>, the body a state transformer.\<close>

function for_loop :: "int \<Rightarrow> int \<Rightarrow> (int \<Rightarrow> 's \<Rightarrow> 's) \<Rightarrow> 's \<Rightarrow> 's" where
  "for_loop i n body s = (if i < n then for_loop (i + 1) n body (body i s) else s)"
  by pat_completeness auto
termination
  by (relation "measure (\<lambda>(i, n, body, s). nat (n - i))") auto

declare for_loop.simps [simp del]

definition draw_rect :: "fbmem \<Rightarrow> int \<Rightarrow> int \<Rightarrow> int \<Rightarrow> int \<Rightarrow> 32 word \<Rightarrow> fbmem" where
  "draw_rect fb x y w h color =
     for_loop 0 h (\<lambda>dy. for_loop 0 w (\<lambda>dx fb'. put_pixel fb' (x + dx) (y + dy) color)) fb"

section \<open>Alpha blending\<close>

definition blend_over :: "32 word \<Rightarrow> 32 word \<Rightarrow> 32 word" where
  "blend_over src dst =
     (let sa = drop_bit 24 src AND 0xFF;
          sr = drop_bit 16 src AND 0xFF;
          sg = drop_bit 8 src AND 0xFF;
          sb = drop_bit 0 src AND 0xFF;
          da = drop_bit 24 dst AND 0xFF;
          dr = drop_bit 16 dst AND 0xFF;
          dg = drop_bit 8 dst AND 0xFF;
          db = drop_bit 0 dst AND 0xFF;
          inv_sa = 255 - sa;
          ra = sa + ((da * inv_sa) div 255);
          rr = sr + ((dr * inv_sa) div 255);
          rg = sg + ((dg * inv_sa) div 255);
          rb = sb + ((db * inv_sa) div 255)
      in push_bit 24 ra OR push_bit 16 rr OR push_bit 8 rg OR rb)"

text \<open>
  The 8-bit channel of a packed colour at bit offset \<open>k\<close> (24 alpha, 16 red, 8 green,
  0 blue), and the channel sum of the specification,
  \<open>srcChannel + dstChannel \<times> (255 - srcAlpha) / 255\<close>, on natural numbers.
\<close>

definition chan :: "nat \<Rightarrow> 32 word \<Rightarrow> nat" where
  "chan k c = unat (drop_bit k c AND 0xFF)"

definition over_sum :: "nat \<Rightarrow> nat \<Rightarrow> nat \<Rightarrow> nat" where
  "over_sum s d a = s + d * (255 - a) div 255"

section \<open>Test patterns\<close>

definition draw_gradient_rgb :: "fbmem \<Rightarrow> fbmem" where
  "draw_gradient_rgb fb =
     for_loop 0 FB_HEIGHT (\<lambda>y.
       for_loop 0 FB_WIDTH (\<lambda>x fb'.
         let r = (word_of_int ((x * 255) sdiv FB_WIDTH) :: 8 word);
             g = (word_of_int ((y * 255) sdiv FB_HEIGHT) :: 8 word);
             b = (word_of_int (((x + y) * 127) sdiv (FB_WIDTH + FB_HEIGHT)) :: 8 word)
         in put_pixel fb' x y
              (0xFF000000 OR push_bit 16 (ucast r) OR push_bit 8 (ucast g) OR ucast b))) fb"

definition colors :: "32 word list" where
  "colors = [0xFFFFFFFF, 0xFFFFFF00, 0xFF00FFFF, 0xFF00FF00,
             0xFFFF00FF, 0xFFFF0000, 0xFF0000FF, 0xFF000000]"

definition draw_color_bars :: "fbmem \<Rightarrow> fbmem" where
  "draw_color_bars fb =
     (let bar_w = FB_WIDTH sdiv 8
      in for_loop 0 8 (\<lambda>i fb'. draw_rect fb' (i * bar_w) 0 bar_w FB_HEIGHT (colors ! nat i)) fb)"

section \<open>The boot logo\<close>

text \<open>
  \<^verbatim>\<open>logo_tux_data.h\<close> is not part of the sources at hand.  What \<^verbatim>\<open>fb_tux.c\<close> uses of
  it is taken as a parameter: the width and height of the indexed image, its
  byte-per-pixel index buffer and its palette of RGB triples.
\<close>

record logo =
  logo_linux_clut224_width :: int
  logo_linux_clut224_height :: int
  logo_linux_clut224_data :: "8 word list"
  logo_linux_clut224_clut :: "8 word list"

text \<open>
  Reading an array past its end is undefined in C and unspecified here; the image is well
  formed when every read of \<^verbatim>\<open>draw_official_logo\<close> stays inside the two arrays.
\<close>

definition logo_ok :: "logo \<Rightarrow> bool" where
  "logo_ok L =
     (0 \<le> logo_linux_clut224_width L \<and> 0 \<le> logo_linux_clut224_height L \<and>
      length (logo_linux_clut224_data L) =
        nat (logo_linux_clut224_width L * logo_linux_clut224_height L) \<and>
      list_all (\<lambda>idx. unat idx * 3 + 2 < length (logo_linux_clut224_clut L))
        (logo_linux_clut224_data L))"

definition draw_official_logo :: "logo \<Rightarrow> fbmem \<Rightarrow> int \<Rightarrow> int \<Rightarrow> fbmem" where
  "draw_official_logo L fb center_x center_y =
     (let x = center_x - (logo_linux_clut224_width L sdiv 2);
          y = center_y - (logo_linux_clut224_height L sdiv 2)
      in for_loop 0 (logo_linux_clut224_height L) (\<lambda>py.
           for_loop 0 (logo_linux_clut224_width L) (\<lambda>px fb'.
             let idx = logo_linux_clut224_data L ! nat (py * logo_linux_clut224_width L + px);
                 r = logo_linux_clut224_clut L ! (unat idx * 3 + 0);
                 g = logo_linux_clut224_clut L ! (unat idx * 3 + 1);
                 b = logo_linux_clut224_clut L ! (unat idx * 3 + 2);
                 color = 0xFF000000 OR push_bit 16 (ucast r) OR push_bit 8 (ucast g) OR ucast b
             in put_pixel fb' (x + px) (y + py) color)) fb)"

text \<open>
  The loop of \<^verbatim>\<open>draw_multiple_logos\<close>, which leaves by \<^verbatim>\<open>break\<close>.  It returns the
  value of \<^verbatim>\<open>i\<close> on leaving the loop, which is the number of logos drawn, with the
  framebuffer.
\<close>

function place_logos :: "logo \<Rightarrow> int \<Rightarrow> int \<Rightarrow> int \<Rightarrow> int \<Rightarrow> fbmem \<Rightarrow> int \<times> fbmem" where
  "place_logos L start_x start_y count i fb =
     (if i < count then
        (let logo_w = logo_linux_clut224_width L;
             logo_h = logo_linux_clut224_height L;
             margin = 20;
             cols = 4;
             row = i sdiv cols;
             col = i smod cols;
             x = start_x + col * (logo_w + margin);
             y = start_y + row * (logo_h + margin)
         in if y + logo_h > FB_HEIGHT then (i, fb)
            else place_logos L start_x start_y count (i + 1)
                   (draw_official_logo L fb (x + logo_w sdiv 2) (y + logo_h sdiv 2)))
      else (i, fb))"
  by pat_completeness auto
termination
  by (relation "measure (\<lambda>(L, start_x, start_y, count, i, fb). nat (count - i))") auto

declare place_logos.simps [simp del]

definition multiple_logos :: "logo \<Rightarrow> fbmem \<Rightarrow> int \<Rightarrow> int \<times> fbmem" where
  "multiple_logos L fb count =
     (let fb = memset fb 0 FB_SIZE;
          logo_w = logo_linux_clut224_width L;
          logo_h = logo_linux_clut224_height L;
          margin = 20;
          cols = 4;
          start_x = (FB_WIDTH - (logo_w * cols + margin * (cols - 1))) sdiv 2;
          start_y = margin
      in place_logos L start_x start_y count 0 fb)"

definition draw_multiple_logos :: "logo \<Rightarrow> fbmem \<Rightarrow> int \<Rightarrow> fbmem" where
  "draw_multiple_logos L fb count = snd (multiple_logos L fb count)"

definition logos_placed :: "logo \<Rightarrow> fbmem \<Rightarrow> int \<Rightarrow> int" where
  "logos_placed L fb count = fst (multiple_logos L fb count)"

text \<open>
  The grid as the specification words it: 4 columns, a margin of 20 between and around the
  copies, the grid centred horizontally; copy \<open>i\<close> has its top-left corner at
  \<open>(grid_x L i, grid_y L i)\<close>.
\<close>

definition grid_x :: "logo \<Rightarrow> int \<Rightarrow> int" where
  "grid_x L i =
     (FB_WIDTH - (4 * logo_linux_clut224_width L + 3 * 20)) sdiv 2
       + (i mod 4) * (logo_linux_clut224_width L + 20)"

definition grid_y :: "logo \<Rightarrow> int \<Rightarrow> int" where
  "grid_y L i = 20 + (i div 4) * (logo_linux_clut224_height L + 20)"

text \<open>The colour of the source pixel \<open>(px, py)\<close> of the indexed image, alpha forced to 255.\<close>

definition logo_color :: "logo \<Rightarrow> int \<Rightarrow> int \<Rightarrow> 32 word" where
  "logo_color L px py =
     (let idx = logo_linux_clut224_data L ! nat (py * logo_linux_clut224_width L + px)
      in 0xFF000000
           OR push_bit 16 (ucast (logo_linux_clut224_clut L ! (unat idx * 3)))
           OR push_bit 8 (ucast (logo_linux_clut224_clut L ! (unat idx * 3 + 1)))
           OR ucast (logo_linux_clut224_clut L ! (unat idx * 3 + 2)))"

section \<open>The numeric conversions of the C library\<close>

text \<open>
  \<^verbatim>\<open>strtol\<close> and \<^verbatim>\<open>atoi\<close> belong to the C library.  They are modelled after the C
  standard (7.22.1.4) for the bases \<^verbatim>\<open>main\<close> uses: white space is skipped, one sign is
  read, for base 16 a \<^verbatim>\<open>0x\<close> or \<^verbatim>\<open>0X\<close> that a hexadecimal digit follows is skipped, and
  the longest run of digits of the base is converted; with no digit the value is 0; a
  value outside \<^verbatim>\<open>long\<close> is clamped to \<^verbatim>\<open>LONG_MIN\<close> or \<^verbatim>\<open>LONG_MAX\<close>.  The width
  of \<^verbatim>\<open>long\<close> is a parameter.  \<^verbatim>\<open>atoi(s)\<close> is \<^verbatim>\<open>(int)strtol(s, NULL, 10)\<close>.
\<close>

definition isspace :: "char \<Rightarrow> bool" where
  "isspace c = (of_char c \<in> {32, 9, 10, 11, 12, 13 :: nat})"

definition digit_of :: "char \<Rightarrow> nat option" where
  "digit_of c =
     (let n = (of_char c :: nat)
      in if 48 \<le> n \<and> n \<le> 57 then Some (n - 48)
         else if 97 \<le> n \<and> n \<le> 122 then Some (n - 87)
         else if 65 \<le> n \<and> n \<le> 90 then Some (n - 55)
         else None)"

definition is_digit :: "nat \<Rightarrow> char \<Rightarrow> bool" where
  "is_digit base c = (case digit_of c of Some d \<Rightarrow> d < base | None \<Rightarrow> False)"

fun digits :: "nat \<Rightarrow> nat \<Rightarrow> string \<Rightarrow> nat" where
  "digits base acc [] = acc"
| "digits base acc (c # cs) =
     (if is_digit base c then digits base (acc * base + the (digit_of c)) cs else acc)"

definition strtol :: "nat \<Rightarrow> string \<Rightarrow> nat \<Rightarrow> int" where
  "strtol long_bits nptr base =
     (let s = dropWhile isspace nptr;
          neg = (case s of c # cs \<Rightarrow> c = CHR ''-'' | [] \<Rightarrow> False);
          s = (case s of c # cs \<Rightarrow> if c = CHR ''-'' \<or> c = CHR ''+'' then cs else s | [] \<Rightarrow> s);
          s = (case s of c0 # cx # c # cs \<Rightarrow>
                 if base = 16 \<and> c0 = CHR ''0'' \<and> (cx = CHR ''x'' \<or> cx = CHR ''X'') \<and> is_digit 16 c
                 then c # cs else s
               | _ \<Rightarrow> s);
          v = int (digits base 0 s)
      in if neg then max (- (2 ^ (long_bits - 1))) (- v)
         else min (2 ^ (long_bits - 1) - 1) v)"

definition atoi :: "nat \<Rightarrow> string \<Rightarrow> int" where
  "atoi long_bits s = sint (word_of_int (strtol long_bits s 10) :: 32 word)"

section \<open>The program\<close>

text \<open>
  What \<^verbatim>\<open>main\<close> meets outside the framebuffer memory: whether \<^verbatim>\<open>open("/dev/fb0")\<close> and
  \<^verbatim>\<open>mmap\<close> succeed when they are called, the width of \<^verbatim>\<open>long\<close>, and the logo of the
  missing header.  \<^verbatim>\<open>draw_vector_tux\<close> decides its ellipses in floating point, which is
  not embedded: the renderer of the \<^verbatim>\<open>tux\<close> mode is a parameter of \<open>main\<close>.  The console
  switch (\<^verbatim>\<open>fbcon_disable\<close>, \<^verbatim>\<open>fbcon_restore\<close>), \<^verbatim>\<open>fb_flush\<close> and the messages
  printed do not touch the framebuffer memory or the exit status and are left out.
  \<^verbatim>\<open>main\<close> returns the exit status and the framebuffer memory; \<open>argv\<close> is the whole
  argument vector, the program name first.
\<close>

record platform =
  open_ok :: bool
  mmap_ok :: bool
  long_bits :: nat
  the_logo :: logo

definition main ::
  "platform \<Rightarrow> (fbmem \<Rightarrow> fbmem) \<Rightarrow> string list \<Rightarrow> fbmem \<Rightarrow> int \<times> fbmem" where
  "main P draw_vector_tux argv fb =
     (let argc = int (length argv);
          mode = (if argc > 1 then argv ! 1 else ''logo'')
      in if mode = ''text'' then (0, fb)
         else if \<not> open_ok P then (1, fb)
         else if \<not> mmap_ok P then (1, fb)
         else if mode = ''logo'' then
           (let count = (if argc > 2 then atoi (long_bits P) (argv ! 2) else 1)
            in if count = 1
               then (0, draw_official_logo (the_logo P) (memset fb 0 FB_SIZE)
                          (FB_WIDTH sdiv 2) (FB_HEIGHT sdiv 2))
               else (0, draw_multiple_logos (the_logo P) fb count))
         else if mode = ''tux'' then (0, draw_vector_tux (memset fb 0x40 FB_SIZE))
         else if mode = ''color'' then (0, draw_color_bars fb)
         else if mode = ''gradient'' then (0, draw_gradient_rgb fb)
         else if mode = ''clear'' then (0, memset fb 0 FB_SIZE)
         else if mode = ''fill'' then
           (let color = (if argc > 2
                         then 0xFF000000 OR (word_of_int (strtol (long_bits P) (argv ! 2) 16) :: 32 word)
                         else 0xFF000000)
            in (0, for_loop 0 (FB_WIDTH * FB_HEIGHT) (\<lambda>i fb'. wr32 fb' i color) fb))
         else (1, fb))"

text \<open>
  One round of the loop of \<^verbatim>\<open>draw_multiple_logos\<close>: the \<^verbatim>\<open>y\<close> of copy \<open>i\<close>, and the
  call of \<^verbatim>\<open>draw_official_logo\<close> for it.
\<close>

definition logo_row_y :: "logo \<Rightarrow> int \<Rightarrow> int \<Rightarrow> int" where
  "logo_row_y L start_y i = start_y + (i sdiv 4) * (logo_linux_clut224_height L + 20)"

definition place_one :: "logo \<Rightarrow> int \<Rightarrow> int \<Rightarrow> int \<Rightarrow> fbmem \<Rightarrow> fbmem" where
  "place_one L start_x start_y i fb =
     draw_official_logo L fb
       (start_x + (i smod 4) * (logo_linux_clut224_width L + 20) + logo_linux_clut224_width L sdiv 2)
       (logo_row_y L start_y i + logo_linux_clut224_height L sdiv 2)"

section \<open>Reading and writing pixels\<close>

lemma rd32_wr32_same: "rd32 (wr32 fb i v) i = v"
proof -
  have "ucast (ucast v :: 8 word) OR push_bit 8 (ucast (ucast (drop_bit 8 v) :: 8 word))
          OR push_bit 16 (ucast (ucast (drop_bit 16 v) :: 8 word))
          OR push_bit 24 (ucast (ucast (drop_bit 24 v) :: 8 word)) = v"
  proof (rule bit_eqI)
    fix n assume "possible_bit TYPE(32 word) n"
    then have n: "n < 32" by simp
    consider "n < 8" | "8 \<le> n" "n < 16" | "16 \<le> n" "n < 24" | "24 \<le> n"
      by linarith
    then show "bit (ucast (ucast v :: 8 word) OR push_bit 8 (ucast (ucast (drop_bit 8 v) :: 8 word))
          OR push_bit 16 (ucast (ucast (drop_bit 16 v) :: 8 word))
          OR push_bit 24 (ucast (ucast (drop_bit 24 v) :: 8 word)) :: 32 word) n = bit v n"
      using n by cases (auto simp: bit_simps)
  qed
  then show ?thesis
    unfolding rd32_def wr32_def by simp
qed

lemma rd32_wr32_other: "j \<noteq> i \<Longrightarrow> rd32 (wr32 fb i v) j = rd32 fb j"
  unfolding rd32_def wr32_def by simp

lemma wr32_byte_other: "a < 4 * i \<or> 4 * i + 4 \<le> a \<Longrightarrow> wr32 fb i v a = fb a"
  unfolding wr32_def by auto

lemma rd32_memset_0:
  assumes "0 \<le> i" "4 * i + 4 \<le> n"
  shows "rd32 (memset fb 0 n) i = 0"
proof -
  have "memset fb 0 n (4 * i) = 0" "memset fb 0 n (4 * i + 1) = 0"
    "memset fb 0 n (4 * i + 2) = 0" "memset fb 0 n (4 * i + 3) = 0"
    using assms unfolding memset_def by auto
  then show ?thesis
    unfolding rd32_def by simp
qed

lemma surface_index_inj:
  assumes "on_surface x y" "on_surface x' y'"
  shows "(y' * FB_WIDTH + x' = y * FB_WIDTH + x) = (x' = x \<and> y' = y)"
proof
  assume eq: "y' * FB_WIDTH + x' = y * FB_WIDTH + x"
  have b: "0 \<le> x" "x < 640" "0 \<le> x'" "x' < 640"
    using assms by (simp_all add: on_surface_def FB_WIDTH_def)
  have e: "y' * 640 + x' = y * 640 + x"
    using eq by (simp add: FB_WIDTH_def)
  have "\<not> y' < y" using b e by linarith
  moreover have "\<not> y < y'" using b e by linarith
  ultimately have "y' = y" by linarith
  with e show "x' = x \<and> y' = y" by simp
next
  assume "x' = x \<and> y' = y"
  then show "y' * FB_WIDTH + x' = y * FB_WIDTH + x" by simp
qed

lemma put_pixel_off: "\<not> on_surface x y \<Longrightarrow> put_pixel fb x y c = fb"
  unfolding put_pixel_def on_surface_def by auto

lemma put_pixel_on: "on_surface x y \<Longrightarrow> put_pixel fb x y c = wr32 fb (y * FB_WIDTH + x) c"
  unfolding put_pixel_def on_surface_def by auto

lemma pixel_put_pixel:
  "on_surface x' y' \<Longrightarrow>
     pixel (put_pixel fb x y c) x' y' =
       (if on_surface x y \<and> x' = x \<and> y' = y then c else pixel fb x' y')"
  by (cases "on_surface x y")
     (auto simp: put_pixel_off put_pixel_on pixel_def rd32_wr32_same rd32_wr32_other surface_index_inj)

lemma put_pixel_bytes:
  "a < 4 * (y * FB_WIDTH + x) \<or> 4 * (y * FB_WIDTH + x) + 4 \<le> a \<Longrightarrow> put_pixel fb x y c a = fb a"
  unfolding put_pixel_def by (simp add: wr32_byte_other)

lemma put_pixel_outside: "outside a \<Longrightarrow> put_pixel fb x y c a = fb a"
proof (cases "on_surface x y")
  case True
  assume "outside a"
  with True have "a < 4 * (y * FB_WIDTH + x) \<or> 4 * (y * FB_WIDTH + x) + 4 \<le> a"
    unfolding outside_def on_surface_def FB_SIZE_def FB_WIDTH_def FB_HEIGHT_def FB_BPP_def
    by auto
  then show ?thesis by (rule put_pixel_bytes)
next
  case False
  then show ?thesis by (simp add: put_pixel_off)
qed

section \<open>Blending\<close>

lemma byte_mask: "(0xFF :: 32 word) = mask 8"
  by (simp add: mask_eq_exp_minus_1)

lemma unat_and_FF: "unat ((w :: 32 word) AND 0xFF) \<le> 255"
proof -
  have "unat (w AND mask 8) = take_bit 8 (unat w)"
    by (simp add: unsigned_take_bit_eq flip: take_bit_eq_mask)
  moreover have "take_bit 8 (unat w) < 2 ^ 8"
    by (rule take_bit_nat_less_exp)
  ultimately show ?thesis by (simp add: byte_mask)
qed

lemma unat_over:
  fixes s d a :: "32 word"
  assumes s: "unat s \<le> 255" and d: "unat d \<le> 255" and a: "unat a \<le> 255"
  shows "unat (s + (d * (255 - a)) div 255) = over_sum (unat s) (unat d) (unat a)"
proof -
  have a': "a \<le> 255" using a by (simp add: word_le_nat_alt)
  have inv: "unat (255 - a) = 255 - unat a"
    using a' by (simp add: unat_sub)
  have "unat d * unat (255 - a) \<le> 255 * 255"
    using d inv by (intro mult_mono) auto
  then have lt: "unat d * unat (255 - a) < 2 ^ LENGTH(32)" by simp
  have prod: "unat (d * (255 - a)) = unat d * (255 - unat a)"
    using lt inv by (simp add: unat_mult_lem [THEN iffD1])
  have q: "unat ((d * (255 - a)) div 255) = unat d * (255 - unat a) div 255"
    by (simp add: unat_div prod)
  have "unat d * (255 - unat a) \<le> 255 * 255"
    using d by (intro mult_mono) auto
  then have "unat d * (255 - unat a) div 255 \<le> 255 * 255 div 255"
    by (rule div_le_mono)
  then have "unat d * (255 - unat a) div 255 \<le> 255" by simp
  then have "unat s + unat ((d * (255 - a)) div 255) < 2 ^ LENGTH(32)"
    using s q by simp
  then have "unat (s + (d * (255 - a)) div 255) = unat s + unat ((d * (255 - a)) div 255)"
    by (simp add: unat_add_lem [THEN iffD1])
  then show ?thesis by (simp add: q over_sum_def)
qed

lemma word_over:
  fixes c d :: "32 word"
  shows "(drop_bit k c AND 0xFF) + ((drop_bit j d AND 0xFF) * (255 - (drop_bit 24 c AND 0xFF))) div 255
           = of_nat (over_sum (chan k c) (chan j d) (chan 24 c))"
proof -
  have "unat ((drop_bit k c AND 0xFF) + ((drop_bit j d AND 0xFF) * (255 - (drop_bit 24 c AND 0xFF))) div 255)
          = over_sum (chan k c) (chan j d) (chan 24 c)"
    unfolding chan_def by (rule unat_over) (rule unat_and_FF)+
  then show ?thesis by (metis of_nat_unat ucast_id)
qed

lemma blend_over_sums:
  "blend_over src dst =
     push_bit 24 (of_nat (over_sum (chan 24 src) (chan 24 dst) (chan 24 src)))
       OR push_bit 16 (of_nat (over_sum (chan 16 src) (chan 16 dst) (chan 24 src)))
       OR push_bit 8 (of_nat (over_sum (chan 8 src) (chan 8 dst) (chan 24 src)))
       OR of_nat (over_sum (chan 0 src) (chan 0 dst) (chan 24 src))"
  unfolding blend_over_def Let_def by (simp only: word_over)

lemma reassemble:
  fixes c :: "32 word"
  shows "push_bit 24 (drop_bit 24 c AND 0xFF) OR push_bit 16 (drop_bit 16 c AND 0xFF)
           OR push_bit 8 (drop_bit 8 c AND 0xFF) OR (drop_bit 0 c AND 0xFF) = c"
proof (rule bit_eqI)
  fix n assume "possible_bit TYPE(32 word) n"
  then have n: "n < 32" by simp
  consider "n < 8" | "8 \<le> n" "n < 16" | "16 \<le> n" "n < 24" | "24 \<le> n"
    by linarith
  then show "bit (push_bit 24 (drop_bit 24 c AND 0xFF) OR push_bit 16 (drop_bit 16 c AND 0xFF)
           OR push_bit 8 (drop_bit 8 c AND 0xFF) OR (drop_bit 0 c AND 0xFF)) n = bit c n"
    using n unfolding byte_mask by cases (auto simp: bit_simps)
qed

lemma of_nat_chan: "(of_nat (chan k c) :: 32 word) = drop_bit k c AND 0xFF"
  unfolding chan_def by (simp only: of_nat_unat ucast_id)

lemma blend_over_opaque:
  assumes "chan 24 src = 255"
  shows "blend_over src dst = src"
proof -
  have s: "over_sum s d 255 = s" for s d by (simp add: over_sum_def)
  have "blend_over src dst =
     push_bit 24 (of_nat (chan 24 src)) OR push_bit 16 (of_nat (chan 16 src))
       OR push_bit 8 (of_nat (chan 8 src)) OR of_nat (chan 0 src)"
    unfolding blend_over_sums unfolding assms s ..
  also have "\<dots> = src"
    unfolding of_nat_chan by (rule reassemble)
  finally show ?thesis .
qed

lemma blend_over_zero: "blend_over 0 dst = dst"
proof -
  have s: "over_sum 0 d 0 = d" for d by (simp add: over_sum_def)
  have z: "chan k 0 = 0" for k by (simp add: chan_def)
  have "blend_over 0 dst =
     push_bit 24 (of_nat (chan 24 dst)) OR push_bit 16 (of_nat (chan 16 dst))
       OR push_bit 8 (of_nat (chan 8 dst)) OR of_nat (chan 0 dst)"
    unfolding blend_over_sums z s ..
  also have "\<dots> = dst"
    unfolding of_nat_chan by (rule reassemble)
  finally show ?thesis .
qed

lemma pack_bytes:
  fixes a r g b :: "8 word"
  defines "p \<equiv> (push_bit 24 (ucast a) OR push_bit 16 (ucast r) OR push_bit 8 (ucast g) OR ucast b :: 32 word)"
  shows "drop_bit 24 p AND 0xFF = ucast a" "drop_bit 16 p AND 0xFF = ucast r"
    "drop_bit 8 p AND 0xFF = ucast g" "drop_bit 0 p AND 0xFF = ucast b"
  unfolding p_def byte_mask
  by (rule bit_eqI, auto simp: bit_simps dest: bit_imp_le_length)+

lemma unat_ucast_byte: "unat (ucast (x :: 8 word) :: 32 word) = unat x"
proof -
  have "unat x < 2 ^ 8" using unsigned_less [of x] by simp
  then have "take_bit 32 (unat x) = unat x"
    by (simp add: take_bit_nat_eq_self_iff)
  then show ?thesis by (simp add: unsigned_ucast_eq)
qed

lemma chan_pack_bytes:
  fixes a r g b :: "8 word"
  defines "p \<equiv> (push_bit 24 (ucast a) OR push_bit 16 (ucast r) OR push_bit 8 (ucast g) OR ucast b :: 32 word)"
  shows "chan 24 p = unat a" "chan 16 p = unat r" "chan 8 p = unat g" "chan 0 p = unat b"
  unfolding chan_def p_def pack_bytes unat_ucast_byte by (rule refl)+

lemma of_nat_byte:
  assumes "x \<le> 255"
  shows "(of_nat x :: 32 word) = ucast (of_nat x :: 8 word)" "unat (of_nat x :: 8 word) = x"
proof -
  show u: "unat (of_nat x :: 8 word) = x"
    using assms by (simp add: unat_of_nat)
  have "unat (ucast (of_nat x :: 8 word) :: 32 word) = x"
    using u by (simp only: unat_ucast_byte)
  moreover have "unat (of_nat x :: 32 word) = x"
    using assms by (simp add: unat_of_nat)
  ultimately show "(of_nat x :: 32 word) = ucast (of_nat x :: 8 word)"
    by (simp only: word_unat_eq_iff)
qed

lemma pack_chan:
  fixes a r g b :: nat
  assumes "a \<le> 255" "r \<le> 255" "g \<le> 255" "b \<le> 255"
  defines "p \<equiv> (push_bit 24 (of_nat a) OR push_bit 16 (of_nat r) OR push_bit 8 (of_nat g) OR of_nat b :: 32 word)"
  shows "chan 24 p = a" "chan 16 p = r" "chan 8 p = g" "chan 0 p = b"
  unfolding p_def
  unfolding of_nat_byte(1) [OF assms(1)] of_nat_byte(1) [OF assms(2)]
    of_nat_byte(1) [OF assms(3)] of_nat_byte(1) [OF assms(4)] chan_pack_bytes
  using assms by (simp_all only: of_nat_byte(2))

lemma chan_le: "chan k c \<le> 255"
  unfolding chan_def by (rule unat_and_FF)

section \<open>Loops that paint rectangles\<close>

lemma sdiv_nonneg: "0 \<le> a \<Longrightarrow> 0 \<le> b \<Longrightarrow> (a :: int) sdiv b = a div b"
  by (simp add: signed_divide_int_def sgn_if)

lemma for_loop_inv:
  assumes "\<And>j s. i \<le> j \<Longrightarrow> j < n \<Longrightarrow> P s \<Longrightarrow> P (body j s)" and "P s"
  shows "P (for_loop i n body s)"
  using assms
proof (induction i n body s rule: for_loop.induct)
  case (1 i n body s)
  show ?case
  proof (cases "i < n")
    case True
    have "P (for_loop (i + 1) n body (body i s))"
      using True "1.prems" by (intro "1.IH") auto
    with True show ?thesis by (subst for_loop.simps) simp
  next
    case False
    with "1.prems" show ?thesis by (subst for_loop.simps) simp
  qed
qed

lemma row_pixel:
  assumes "on_surface X Y"
  shows "pixel (for_loop i w (\<lambda>px fb'. put_pixel fb' (x + px) yy (f px)) fb) X Y =
           (if Y = yy \<and> x + i \<le> X \<and> X < x + w then f (X - x) else pixel fb X Y)"
proof (induction i w "\<lambda>px fb'. put_pixel fb' (x + px) yy (f px)" fb rule: for_loop.induct)
  case (1 i n s)
  show ?case
  proof (cases "i < n")
    case True
    have step: "pixel (put_pixel s (x + i) yy (f i)) X Y =
            (if Y = yy \<and> X = x + i then f i else pixel s X Y)"
      using assms by (auto simp: pixel_put_pixel)
    have "pixel (for_loop i n (\<lambda>px fb'. put_pixel fb' (x + px) yy (f px)) s) X Y =
          pixel (for_loop (i + 1) n (\<lambda>px fb'. put_pixel fb' (x + px) yy (f px))
                   (put_pixel s (x + i) yy (f i))) X Y"
      using True by (subst for_loop.simps) simp
    also have "\<dots> = (if Y = yy \<and> x + (i + 1) \<le> X \<and> X < x + n then f (X - x)
                      else pixel (put_pixel s (x + i) yy (f i)) X Y)"
      by (rule "1.hyps" [OF True])
    also have "\<dots> = (if Y = yy \<and> x + i \<le> X \<and> X < x + n then f (X - x) else pixel s X Y)"
      unfolding step using True by auto
    finally show ?thesis .
  next
    case False
    then show ?thesis by (subst for_loop.simps) auto
  qed
qed

lemma rect_pixel:
  assumes "on_surface X Y"
  shows "pixel (for_loop j h (\<lambda>py. for_loop 0 w (\<lambda>px fb'. put_pixel fb' (x + px) (y + py) (f px py))) fb) X Y =
           (if y + j \<le> Y \<and> Y < y + h \<and> x \<le> X \<and> X < x + w then f (X - x) (Y - y) else pixel fb X Y)"
proof (induction j h "\<lambda>py. for_loop 0 w (\<lambda>px fb'. put_pixel fb' (x + px) (y + py) (f px py))" fb
    rule: for_loop.induct)
  case (1 j n s)
  let ?row = "\<lambda>py. for_loop 0 w (\<lambda>px fb'. put_pixel fb' (x + px) (y + py) (f px py))"
  show ?case
  proof (cases "j < n")
    case True
    have step: "pixel (?row j s) X Y =
            (if Y = y + j \<and> x \<le> X \<and> X < x + w then f (X - x) j else pixel s X Y)"
      using row_pixel [OF assms, of 0 w x "y + j" "\<lambda>px. f px j" s] by simp
    have "pixel (for_loop j n ?row s) X Y = pixel (for_loop (j + 1) n ?row (?row j s)) X Y"
      using True by (subst for_loop.simps) simp
    also have "\<dots> = (if y + (j + 1) \<le> Y \<and> Y < y + n \<and> x \<le> X \<and> X < x + w
                      then f (X - x) (Y - y) else pixel (?row j s) X Y)"
      by (rule "1.hyps" [OF True])
    also have "\<dots> = (if y + j \<le> Y \<and> Y < y + n \<and> x \<le> X \<and> X < x + w
                      then f (X - x) (Y - y) else pixel s X Y)"
      unfolding step using True by auto
    finally show ?thesis .
  next
    case False
    then show ?thesis by (subst for_loop.simps) auto
  qed
qed

lemma row_outside:
  assumes "outside a"
  shows "for_loop i w (\<lambda>px fb'. put_pixel fb' (x + px) yy (f px)) fb a = fb a"
  by (rule for_loop_inv [where P = "\<lambda>s. s a = fb a"]) (simp_all add: put_pixel_outside [OF assms])

lemma rect_outside:
  assumes "outside a"
  shows "for_loop j h (\<lambda>py. for_loop i w (\<lambda>px fb'. put_pixel fb' (x + px) (y + py) (f px py))) fb a = fb a"
  by (rule for_loop_inv [where P = "\<lambda>s. s a = fb a"]) (simp_all add: row_outside [OF assms])

section \<open>The gradient\<close>

lemma opaque_bytes:
  "(0xFF000000 :: 32 word) OR push_bit 16 (ucast r) OR push_bit 8 (ucast g) OR ucast b =
     push_bit 24 (ucast (0xFF :: 8 word)) OR push_bit 16 (ucast (r :: 8 word))
       OR push_bit 8 (ucast (g :: 8 word)) OR ucast (b :: 8 word)"
  by simp

lemma chan_opaque_bytes:
  fixes r g b :: "8 word"
  defines "p \<equiv> (0xFF000000 :: 32 word) OR push_bit 16 (ucast r) OR push_bit 8 (ucast g) OR ucast b"
  shows "chan 24 p = 255" "chan 16 p = unat r" "chan 8 p = unat g" "chan 0 p = unat b"
  unfolding p_def opaque_bytes chan_pack_bytes by simp_all

lemma uint_byte_of_int: "0 \<le> v \<Longrightarrow> v < 256 \<Longrightarrow> uint (word_of_int v :: 8 word) = v"
  by (simp add: uint_word_of_int take_bit_int_eq_self flip: take_bit_eq_mod)

lemma draw_gradient_rgb_pixel:
  assumes "on_surface X Y"
  shows "pixel (draw_gradient_rgb fb) X Y =
     0xFF000000
       OR push_bit 16 (ucast (word_of_int ((X * 255) sdiv FB_WIDTH) :: 8 word))
       OR push_bit 8 (ucast (word_of_int ((Y * 255) sdiv FB_HEIGHT) :: 8 word))
       OR ucast (word_of_int (((X + Y) * 127) sdiv (FB_WIDTH + FB_HEIGHT)) :: 8 word)"
  using assms
    rect_pixel [OF assms, of 0 FB_HEIGHT FB_WIDTH 0 0
      "\<lambda>x y. 0xFF000000
       OR push_bit 16 (ucast (word_of_int ((x * 255) sdiv FB_WIDTH) :: 8 word))
       OR push_bit 8 (ucast (word_of_int ((y * 255) sdiv FB_HEIGHT) :: 8 word))
       OR ucast (word_of_int (((x + y) * 127) sdiv (FB_WIDTH + FB_HEIGHT)) :: 8 word)" fb]
  unfolding draw_gradient_rgb_def Let_def
  by (simp add: on_surface_def)

lemma gradient_bounds:
  assumes "on_surface X Y"
  shows "(X * 255) sdiv FB_WIDTH = X * 255 div FB_WIDTH"
    "(Y * 255) sdiv FB_HEIGHT = Y * 255 div FB_HEIGHT"
    "((X + Y) * 127) sdiv (FB_WIDTH + FB_HEIGHT) = (X + Y) * 127 div (FB_WIDTH + FB_HEIGHT)"
    "0 \<le> X * 255 div FB_WIDTH" "X * 255 div FB_WIDTH < 255"
    "0 \<le> Y * 255 div FB_HEIGHT" "Y * 255 div FB_HEIGHT < 255"
    "0 \<le> (X + Y) * 127 div (FB_WIDTH + FB_HEIGHT)" "(X + Y) * 127 div (FB_WIDTH + FB_HEIGHT) < 127"
proof -
  have b: "0 \<le> X" "X \<le> 639" "0 \<le> Y" "Y \<le> 479"
    using assms by (simp_all add: on_surface_def FB_WIDTH_def FB_HEIGHT_def)
  show "(X * 255) sdiv FB_WIDTH = X * 255 div FB_WIDTH"
    "(Y * 255) sdiv FB_HEIGHT = Y * 255 div FB_HEIGHT"
    "((X + Y) * 127) sdiv (FB_WIDTH + FB_HEIGHT) = (X + Y) * 127 div (FB_WIDTH + FB_HEIGHT)"
    using b by (simp_all add: sdiv_nonneg FB_WIDTH_def FB_HEIGHT_def)
  show "0 \<le> X * 255 div FB_WIDTH" "0 \<le> Y * 255 div FB_HEIGHT"
    "0 \<le> (X + Y) * 127 div (FB_WIDTH + FB_HEIGHT)"
    using b by (simp_all add: pos_imp_zdiv_nonneg_iff FB_WIDTH_def FB_HEIGHT_def)
  have "X * 255 div 640 \<le> 639 * 255 div 640"
    using b by (intro zdiv_mono1) auto
  then show "X * 255 div FB_WIDTH < 255" by (simp add: FB_WIDTH_def)
  have "Y * 255 div 480 \<le> 479 * 255 div 480"
    using b by (intro zdiv_mono1) auto
  then show "Y * 255 div FB_HEIGHT < 255" by (simp add: FB_HEIGHT_def)
  have "(X + Y) * 127 div 1120 \<le> 1118 * 127 div 1120"
    using b by (intro zdiv_mono1) auto
  then show "(X + Y) * 127 div (FB_WIDTH + FB_HEIGHT) < 127"
    by (simp add: FB_WIDTH_def FB_HEIGHT_def)
qed

section \<open>Colour bars\<close>

lemma div_band:
  fixes X i bw :: int
  assumes "0 < bw" "i * bw \<le> X" "X < (i + 1) * bw"
  shows "X div bw = i"
proof -
  have r: "0 \<le> X - i * bw" "X - i * bw < bw"
    using assms by (simp_all add: algebra_simps)
  have "X div bw = (i * bw + (X - i * bw)) div bw" by simp
  also have "\<dots> = i + (X - i * bw) div bw"
    using assms(1) by (subst div_mult_self3) auto
  also have "\<dots> = i"
    using r by (simp add: div_pos_pos_trivial)
  finally show ?thesis .
qed

lemma draw_rect_pixel:
  assumes "on_surface X Y"
  shows "pixel (draw_rect fb x y w h c) X Y =
           (if x \<le> X \<and> X < x + w \<and> y \<le> Y \<and> Y < y + h then c else pixel fb X Y)"
  unfolding draw_rect_def
  using rect_pixel [OF assms, of 0 h w x y "\<lambda>px py. c" fb] by auto

lemma draw_rect_outside: "outside a \<Longrightarrow> draw_rect fb x y w h c a = fb a"
  unfolding draw_rect_def by (rule rect_outside)

lemma bars_pixel:
  assumes "on_surface X Y" and "0 < bw"
  shows "pixel (for_loop i n (\<lambda>i fb'. draw_rect fb' (i * bw) 0 bw FB_HEIGHT (cs i)) fb) X Y =
           (if i * bw \<le> X \<and> X < n * bw then cs (X div bw) else pixel fb X Y)"
proof (induction i n "\<lambda>i fb'. draw_rect fb' (i * bw) 0 bw FB_HEIGHT (cs i)" fb rule: for_loop.induct)
  case (1 i n s)
  let ?bar = "\<lambda>i fb'. draw_rect fb' (i * bw) 0 bw FB_HEIGHT (cs i)"
  have Y: "0 \<le> Y" "Y < FB_HEIGHT" using assms(1) by (simp_all add: on_surface_def)
  show ?case
  proof (cases "i < n")
    case True
    have step: "pixel (?bar i s) X Y =
            (if i * bw \<le> X \<and> X < (i + 1) * bw then cs i else pixel s X Y)"
      using Y by (simp add: draw_rect_pixel [OF assms(1)] algebra_simps)
    have here: "X div bw = i" if "i * bw \<le> X" "X < (i + 1) * bw"
      using div_band [OF assms(2) that] .
    have mono: "(i + 1) * bw \<le> n * bw"
      using True assms(2) by (intro mult_right_mono) auto
    have "pixel (for_loop i n ?bar s) X Y = pixel (for_loop (i + 1) n ?bar (?bar i s)) X Y"
      using True by (subst for_loop.simps) simp
    also have "\<dots> = (if (i + 1) * bw \<le> X \<and> X < n * bw then cs (X div bw)
                      else pixel (?bar i s) X Y)"
      by (rule "1.hyps" [OF True])
    also have "\<dots> = (if i * bw \<le> X \<and> X < n * bw then cs (X div bw) else pixel s X Y)"
    proof -
      have lo: "i * bw \<le> (i + 1) * bw"
        using assms(2) by (intro mult_right_mono) auto
      consider (rest) "(i + 1) * bw \<le> X \<and> X < n * bw"
        | (this_bar) "i * bw \<le> X \<and> X < (i + 1) * bw"
        | (none) "\<not> (i * bw \<le> X \<and> X < n * bw)"
        by linarith
      then show ?thesis
      proof cases
        case rest
        moreover from rest lo have "i * bw \<le> X \<and> X < n * bw" by linarith
        ultimately show ?thesis by (simp only: if_True simp_thms)
      next
        case this_bar
        then have "\<not> ((i + 1) * bw \<le> X \<and> X < n * bw)" by linarith
        moreover from this_bar mono have "i * bw \<le> X \<and> X < n * bw" by linarith
        moreover have "X div bw = i" using this_bar here by blast
        ultimately show ?thesis
          unfolding step using this_bar by (simp only: if_True if_False simp_thms)
      next
        case none
        then have "\<not> ((i + 1) * bw \<le> X \<and> X < n * bw)" using lo by linarith
        moreover from none mono have "\<not> (i * bw \<le> X \<and> X < (i + 1) * bw)" by linarith
        ultimately show ?thesis
          unfolding step using none by (simp only: if_False simp_thms)
      qed
    qed
    finally show ?thesis .
  next
    case False
    then have "n * bw \<le> i * bw"
      using assms(2) by (intro mult_right_mono) auto
    then have "\<not> (i * bw \<le> X \<and> X < n * bw)" by linarith
    moreover have "for_loop i n ?bar s = s"
      using False by (subst for_loop.simps) simp
    ultimately show ?thesis by (simp only: if_False simp_thms)
  qed
qed

lemma bar_w: "FB_WIDTH sdiv 8 = 80"
  by (simp add: FB_WIDTH_def signed_divide_int_def)

lemma draw_color_bars_pixel:
  assumes "on_surface X Y"
  shows "pixel (draw_color_bars fb) X Y = colors ! nat (X div 80)"
proof -
  have "pixel (for_loop 0 8 (\<lambda>i fb'. draw_rect fb' (i * 80) 0 80 FB_HEIGHT (colors ! nat i)) fb) X Y =
          (if 0 * 80 \<le> X \<and> X < 8 * 80 then colors ! nat (X div 80) else pixel fb X Y)"
    by (rule bars_pixel [OF assms]) simp
  moreover have "0 * 80 \<le> X \<and> X < 8 * 80"
    using assms by (simp add: on_surface_def FB_WIDTH_def)
  ultimately show ?thesis
    unfolding draw_color_bars_def Let_def bar_w by (simp only: if_True simp_thms)
qed

lemma draw_color_bars_outside: "outside a \<Longrightarrow> draw_color_bars fb a = fb a"
  unfolding draw_color_bars_def Let_def
  by (rule for_loop_inv [where P = "\<lambda>s. s a = fb a"]) (simp_all add: draw_rect_outside)

section \<open>The logo blit\<close>

lemma draw_official_logo_loops:
  "draw_official_logo L fb center_x center_y =
     for_loop 0 (logo_linux_clut224_height L) (\<lambda>py.
       for_loop 0 (logo_linux_clut224_width L) (\<lambda>px fb'.
         put_pixel fb' (center_x - (logo_linux_clut224_width L sdiv 2) + px)
           (center_y - (logo_linux_clut224_height L sdiv 2) + py) (logo_color L px py))) fb"
  unfolding draw_official_logo_def logo_color_def Let_def by simp

lemma draw_official_logo_pixel:
  assumes "on_surface X Y"
  shows "pixel (draw_official_logo L fb center_x center_y) X Y =
     (if center_x - (logo_linux_clut224_width L sdiv 2) \<le> X \<and>
         X < center_x - (logo_linux_clut224_width L sdiv 2) + logo_linux_clut224_width L \<and>
         center_y - (logo_linux_clut224_height L sdiv 2) \<le> Y \<and>
         Y < center_y - (logo_linux_clut224_height L sdiv 2) + logo_linux_clut224_height L
      then logo_color L (X - (center_x - (logo_linux_clut224_width L sdiv 2)))
             (Y - (center_y - (logo_linux_clut224_height L sdiv 2)))
      else pixel fb X Y)"
  unfolding draw_official_logo_loops
  using rect_pixel [OF assms, of 0 "logo_linux_clut224_height L" "logo_linux_clut224_width L"
      "center_x - (logo_linux_clut224_width L sdiv 2)"
      "center_y - (logo_linux_clut224_height L sdiv 2)" "logo_color L" fb]
  by (simp only: add_0_right) (simp only: conj_ac)

lemma draw_official_logo_outside:
  "outside a \<Longrightarrow> draw_official_logo L fb center_x center_y a = fb a"
  unfolding draw_official_logo_loops by (rule rect_outside)

lemma logo_color_chan:
  "chan 24 (logo_color L px py) = 255"
  "chan 16 (logo_color L px py) =
     unat (logo_linux_clut224_clut L !
       (unat (logo_linux_clut224_data L ! nat (py * logo_linux_clut224_width L + px)) * 3 + 0))"
  "chan 8 (logo_color L px py) =
     unat (logo_linux_clut224_clut L !
       (unat (logo_linux_clut224_data L ! nat (py * logo_linux_clut224_width L + px)) * 3 + 1))"
  "chan 0 (logo_color L px py) =
     unat (logo_linux_clut224_clut L !
       (unat (logo_linux_clut224_data L ! nat (py * logo_linux_clut224_width L + px)) * 3 + 2))"
  unfolding logo_color_def Let_def chan_opaque_bytes by simp_all

section \<open>The loop of the tiled logos\<close>

lemma place_logos_step:
  "place_logos L start_x start_y count i fb =
     (if i < count \<and> \<not> logo_row_y L start_y i + logo_linux_clut224_height L > FB_HEIGHT
      then place_logos L start_x start_y count (i + 1) (place_one L start_x start_y i fb)
      else (i, fb))"
  by (subst place_logos.simps) (simp add: Let_def logo_row_y_def place_one_def)

lemma place_logos_induct:
  assumes "\<And>i fb. (i < count \<Longrightarrow> \<not> logo_row_y L start_y i + logo_linux_clut224_height L > FB_HEIGHT \<Longrightarrow>
             P (i + 1) (place_one L start_x start_y i fb)) \<Longrightarrow> P i fb"
  shows "P i fb"
proof (induction "nat (count - i)" arbitrary: i fb)
  case (0 i fb)
  then have "\<not> i < count" by simp
  show ?case
  proof (rule assms)
    assume "i < count"
    with \<open>\<not> i < count\<close> show "P (i + 1) (place_one L start_x start_y i fb)" by simp
  qed
next
  case (Suc n i fb)
  show ?case
  proof (rule assms)
    assume "i < count"
    with Suc.hyps(2) have "n = nat (count - (i + 1))" by simp
    then show "P (i + 1) (place_one L start_x start_y i fb)" by (rule Suc.hyps(1))
  qed
qed

lemma place_logos_stop:
  assumes "\<not> (i < count \<and> \<not> logo_row_y L start_y i + logo_linux_clut224_height L > FB_HEIGHT)"
  shows "place_logos L start_x start_y count i fb = (i, fb)"
  by (subst place_logos_step) (simp only: assms if_False)

lemma place_logos_go:
  assumes "i < count" "\<not> logo_row_y L start_y i + logo_linux_clut224_height L > FB_HEIGHT"
  shows "place_logos L start_x start_y count i fb =
           place_logos L start_x start_y count (i + 1) (place_one L start_x start_y i fb)"
  by (subst place_logos_step) (simp only: assms if_True simp_thms)

lemma place_logos_count:
  "i \<le> fst (place_logos L start_x start_y count i fb) \<and>
   fst (place_logos L start_x start_y count i fb) \<le> max i count"
proof (induction i fb rule: place_logos_induct [where count = count and L = L
      and start_x = start_x and start_y = start_y])
  case (1 i fb)
  show ?case
  proof (cases "i < count \<and> \<not> logo_row_y L start_y i + logo_linux_clut224_height L > FB_HEIGHT")
    case True
    then have go: "place_logos L start_x start_y count i fb =
        place_logos L start_x start_y count (i + 1) (place_one L start_x start_y i fb)"
      by (intro place_logos_go) auto
    from True 1 show ?thesis unfolding go by auto
  next
    case False
    then show ?thesis by (simp only: place_logos_stop [OF False]) simp
  qed
qed

lemma place_logos_fit:
  "i \<le> k \<Longrightarrow> k < fst (place_logos L start_x start_y count i fb) \<Longrightarrow>
     logo_row_y L start_y k + logo_linux_clut224_height L \<le> FB_HEIGHT"
proof (induction i fb rule: place_logos_induct [where count = count and L = L
      and start_x = start_x and start_y = start_y])
  case (1 i fb)
  show ?case
  proof (cases "i < count \<and> \<not> logo_row_y L start_y i + logo_linux_clut224_height L > FB_HEIGHT")
    case True
    show ?thesis
    proof (cases "k = i")
      case True
      with \<open>i < count \<and> _\<close> show ?thesis by simp
    next
      case False
      with "1.prems" have "i + 1 \<le> k" by simp
      moreover have "place_logos L start_x start_y count i fb =
          place_logos L start_x start_y count (i + 1) (place_one L start_x start_y i fb)"
        using \<open>i < count \<and> _\<close> by (intro place_logos_go) auto
      then have "k < fst (place_logos L start_x start_y count (i + 1) (place_one L start_x start_y i fb))"
        using "1.prems"(2) by simp
      ultimately show ?thesis using "1.IH" \<open>i < count \<and> _\<close> by blast
    qed
  next
    case False
    with "1.prems" show ?thesis by (simp only: place_logos_stop [OF False]) simp
  qed
qed

lemma place_logos_break:
  "fst (place_logos L start_x start_y count i fb) < count \<Longrightarrow>
     logo_row_y L start_y (fst (place_logos L start_x start_y count i fb))
       + logo_linux_clut224_height L > FB_HEIGHT"
proof (induction i fb rule: place_logos_induct [where count = count and L = L
      and start_x = start_x and start_y = start_y])
  case (1 i fb)
  show ?case
  proof (cases "i < count \<and> \<not> logo_row_y L start_y i + logo_linux_clut224_height L > FB_HEIGHT")
    case True
    then have go: "place_logos L start_x start_y count i fb =
        place_logos L start_x start_y count (i + 1) (place_one L start_x start_y i fb)"
      by (intro place_logos_go) auto
    from True "1.IH" "1.prems" show ?thesis unfolding go by blast
  next
    case False
    with "1.prems" show ?thesis by (simp only: place_logos_stop [OF False]) simp
  qed
qed

lemma place_logos_fold:
  "snd (place_logos L start_x start_y count i fb) =
     fold (place_one L start_x start_y) [i..fst (place_logos L start_x start_y count i fb) - 1] fb"
proof (induction i fb rule: place_logos_induct [where count = count and L = L
      and start_x = start_x and start_y = start_y])
  case (1 i fb)
  show ?case
  proof (cases "i < count \<and> \<not> logo_row_y L start_y i + logo_linux_clut224_height L > FB_HEIGHT")
    case True
    let ?p = "fst (place_logos L start_x start_y count (i + 1) (place_one L start_x start_y i fb))"
    have "i + 1 \<le> ?p" using place_logos_count by blast
    then have "[i..?p - 1] = i # [i + 1..?p - 1]"
      by (subst upto_rec1) auto
    moreover have go: "place_logos L start_x start_y count i fb =
        place_logos L start_x start_y count (i + 1) (place_one L start_x start_y i fb)"
      using True by (intro place_logos_go) auto
    moreover have "snd (place_logos L start_x start_y count (i + 1) (place_one L start_x start_y i fb)) =
        fold (place_one L start_x start_y) [i + 1..?p - 1] (place_one L start_x start_y i fb)"
      using 1 True by blast
    ultimately show ?thesis by simp
  next
    case False
    then show ?thesis by (simp only: place_logos_stop [OF False]) simp
  qed
qed

lemma place_logos_outside:
  assumes "outside a"
  shows "snd (place_logos L start_x start_y count i fb) a = fb a"
proof (induction i fb rule: place_logos_induct [where count = count and L = L
      and start_x = start_x and start_y = start_y])
  case (1 i fb)
  show ?case
  proof (cases "i < count \<and> \<not> logo_row_y L start_y i + logo_linux_clut224_height L > FB_HEIGHT")
    case True
    then have go: "place_logos L start_x start_y count i fb =
        place_logos L start_x start_y count (i + 1) (place_one L start_x start_y i fb)"
      by (intro place_logos_go) auto
    have "snd (place_logos L start_x start_y count (i + 1) (place_one L start_x start_y i fb)) a =
        place_one L start_x start_y i fb a"
      using 1 True by blast
    then show ?thesis
      unfolding go by (simp add: place_one_def draw_official_logo_outside [OF assms])
  next
    case False
    then show ?thesis by (simp only: place_logos_stop [OF False]) simp
  qed
qed

section \<open>The grid of the tiled logos\<close>

lemma smod_nonneg: "0 \<le> a \<Longrightarrow> 0 \<le> b \<Longrightarrow> (a :: int) smod b = a mod b"
  by (rule smod_mod_positive)

lemma logo_row_y_grid: "0 \<le> k \<Longrightarrow> logo_row_y L 20 k = grid_y L k"
  by (simp add: logo_row_y_def grid_y_def sdiv_nonneg)

lemma place_one_grid:
  assumes "0 \<le> k"
    and "sx = (FB_WIDTH - (logo_linux_clut224_width L * 4 + 20 * (4 - 1))) sdiv 2"
  shows "place_one L sx 20 k =
       (\<lambda>fb'. draw_official_logo L fb' (grid_x L k + logo_linux_clut224_width L sdiv 2)
         (grid_y L k + logo_linux_clut224_height L sdiv 2))"
  using assms
  by (intro ext) (simp add: place_one_def logo_row_y_grid grid_x_def smod_nonneg mult.commute)

lemma multiple_logos_place:
  "multiple_logos L fb count =
     place_logos L ((FB_WIDTH - (logo_linux_clut224_width L * 4 + 20 * (4 - 1))) sdiv 2) 20 count 0
       (memset fb 0 FB_SIZE)"
  by (simp add: multiple_logos_def Let_def)

lemma logos_placed_bounds:
  "0 \<le> logos_placed L fb count \<and> logos_placed L fb count \<le> max 0 count"
  unfolding logos_placed_def multiple_logos_place by (rule place_logos_count)

lemma logos_placed_fit:
  assumes "0 \<le> k" "k < logos_placed L fb count"
  shows "grid_y L k + logo_linux_clut224_height L \<le> FB_HEIGHT"
  using place_logos_fit [OF assms(1) assms(2) [unfolded logos_placed_def multiple_logos_place]]
  by (simp only: logo_row_y_grid [OF assms(1)])

lemma logos_placed_break:
  assumes "logos_placed L fb count < count"
  shows "grid_y L (logos_placed L fb count) + logo_linux_clut224_height L > FB_HEIGHT"
proof -
  have p: "0 \<le> logos_placed L fb count" using logos_placed_bounds by blast
  show ?thesis
    using place_logos_break [OF assms [unfolded logos_placed_def multiple_logos_place]]
    unfolding logo_row_y_grid [OF p [unfolded logos_placed_def multiple_logos_place]]
    unfolding logos_placed_def multiple_logos_place .
qed

lemma logos_placed_fewer:
  assumes "1 \<le> count" "grid_y L (count - 1) + logo_linux_clut224_height L > FB_HEIGHT"
  shows "logos_placed L fb count < count"
proof (rule ccontr)
  assume "\<not> logos_placed L fb count < count"
  then have "count - 1 < logos_placed L fb count" by simp
  moreover have "0 \<le> count - 1" using assms(1) by simp
  ultimately have "grid_y L (count - 1) + logo_linux_clut224_height L \<le> FB_HEIGHT"
    by (rule logos_placed_fit [rotated])
  with assms(2) show False by simp
qed

lemma draw_multiple_logos_fold:
  "draw_multiple_logos L fb count =
     fold (\<lambda>k fb'. draw_official_logo L fb' (grid_x L k + logo_linux_clut224_width L sdiv 2)
                     (grid_y L k + logo_linux_clut224_height L sdiv 2))
       [0..logos_placed L fb count - 1] (memset fb 0 FB_SIZE)"
proof -
  let ?sx = "(FB_WIDTH - (logo_linux_clut224_width L * 4 + 20 * (4 - 1))) sdiv 2"
  have "draw_multiple_logos L fb count =
      fold (place_one L ?sx 20) [0..logos_placed L fb count - 1] (memset fb 0 FB_SIZE)"
    unfolding draw_multiple_logos_def logos_placed_def multiple_logos_place
    by (rule place_logos_fold)
  also have "\<dots> = fold (\<lambda>k fb'. draw_official_logo L fb' (grid_x L k + logo_linux_clut224_width L sdiv 2)
                     (grid_y L k + logo_linux_clut224_height L sdiv 2))
       [0..logos_placed L fb count - 1] (memset fb 0 FB_SIZE)"
  proof (rule fold_cong)
    fix k assume "k \<in> set [0..logos_placed L fb count - 1]"
    then have "0 \<le> k" by simp
    then show "place_one L ?sx 20 k =
       (\<lambda>fb'. draw_official_logo L fb' (grid_x L k + logo_linux_clut224_width L sdiv 2)
         (grid_y L k + logo_linux_clut224_height L sdiv 2))"
      by (rule place_one_grid) (rule refl)
  qed (rule refl)+
  finally show ?thesis .
qed

lemma draw_multiple_logos_outside:
  assumes "outside a"
  shows "draw_multiple_logos L fb count a = fb a"
proof -
  have "draw_multiple_logos L fb count a = memset fb 0 FB_SIZE a"
    unfolding draw_multiple_logos_def multiple_logos_place
    by (rule place_logos_outside [OF assms])
  also have "\<dots> = fb a"
    using assms by (auto simp: memset_def outside_def)
  finally show ?thesis .
qed

lemma grid_copy_pixel:
  assumes "on_surface X Y"
  shows "pixel (draw_official_logo L fb' (grid_x L k + logo_linux_clut224_width L sdiv 2)
                     (grid_y L k + logo_linux_clut224_height L sdiv 2)) X Y =
     (if grid_x L k \<le> X \<and> X < grid_x L k + logo_linux_clut224_width L \<and>
         grid_y L k \<le> Y \<and> Y < grid_y L k + logo_linux_clut224_height L
      then logo_color L (X - grid_x L k) (Y - grid_y L k) else pixel fb' X Y)"
  unfolding draw_official_logo_pixel [OF assms] by simp

section \<open>The claims\<close>

text \<open>
  C3.  \<^verbatim>\<open>put_pixel\<close> at a coordinate with \<open>x < 0\<close>, \<open>x \<ge> width\<close>, \<open>y < 0\<close> or
  \<open>y \<ge> height\<close> returns the memory as it was; the function has no error path.  At a
  coordinate on the surface it stores the colour at \<open>(x, y)\<close>, every other pixel of the
  surface keeps its value, and so does every byte of memory outside the four bytes of
  that pixel.
\<close>

theorem put_pixel_frame:
  "(x < 0 \<or> x \<ge> FB_WIDTH \<or> y < 0 \<or> y \<ge> FB_HEIGHT \<longrightarrow> put_pixel fb x y color = fb) \<and>
   (0 \<le> x \<and> x < FB_WIDTH \<and> 0 \<le> y \<and> y < FB_HEIGHT \<longrightarrow>
      pixel (put_pixel fb x y color) x y = color \<and>
      (\<forall>x' y'. on_surface x' y' \<and> (x', y') \<noteq> (x, y) \<longrightarrow>
         pixel (put_pixel fb x y color) x' y' = pixel fb x' y') \<and>
      (\<forall>a. a < 4 * (y * FB_WIDTH + x) \<or> 4 * (y * FB_WIDTH + x) + 4 \<le> a \<longrightarrow>
         put_pixel fb x y color a = fb a))"
proof -
  have off: "x < 0 \<or> x \<ge> FB_WIDTH \<or> y < 0 \<or> y \<ge> FB_HEIGHT \<longrightarrow> put_pixel fb x y color = fb"
    by (simp add: put_pixel_def)
  have on: "pixel (put_pixel fb x y color) x y = color \<and>
      (\<forall>x' y'. on_surface x' y' \<and> (x', y') \<noteq> (x, y) \<longrightarrow>
         pixel (put_pixel fb x y color) x' y' = pixel fb x' y') \<and>
      (\<forall>a. a < 4 * (y * FB_WIDTH + x) \<or> 4 * (y * FB_WIDTH + x) + 4 \<le> a \<longrightarrow>
         put_pixel fb x y color a = fb a)"
    if "0 \<le> x \<and> x < FB_WIDTH \<and> 0 \<le> y \<and> y < FB_HEIGHT"
  proof -
    from that have s: "on_surface x y" by (simp add: on_surface_def)
    show ?thesis
      using s by (auto simp: pixel_put_pixel put_pixel_bytes)
  qed
  from off on show ?thesis by blast
qed


theorem put_pixel_frame_witness:
  "put_pixel (\<lambda>a. 0) (- 1) 0 0xFFFFFFFF = (\<lambda>a. 0) \<and>
   pixel (put_pixel (\<lambda>a. 0) 3 2 0xFFFFFFFF) 3 2 = 0xFFFFFFFF \<and>
   pixel (put_pixel (\<lambda>a. 0) 3 2 0xFFFFFFFF) 4 2 = pixel (\<lambda>a. 0) 4 2 \<and>
   put_pixel (\<lambda>a. 0) 3 2 0xFFFFFFFF (- 1) = 0"
  using put_pixel_frame [of "- 1" 0 "\<lambda>a. 0" "0xFFFFFFFF"]
    put_pixel_frame [of 3 2 "\<lambda>a. 0" "0xFFFFFFFF"]
  by (simp add: FB_WIDTH_def FB_HEIGHT_def on_surface_def)

text \<open>
  C2, as amended.  The word that \<^verbatim>\<open>blend_over\<close> returns is the four channel sums
  \<open>srcChannel + dstChannel \<times> (255 - srcAlpha) / 255\<close> (truncating division, alpha
  included), shifted to their places and combined by bitwise or.  A source of alpha 255
  is returned exactly, over every destination.  The source \<open>0x00000000\<close> (alpha 0 and
  red, green, blue 0) over a destination returns the destination.
\<close>

theorem blend_over_channels:
  "blend_over src dst =
     push_bit 24 (of_nat (over_sum (chan 24 src) (chan 24 dst) (chan 24 src)))
       OR push_bit 16 (of_nat (over_sum (chan 16 src) (chan 16 dst) (chan 24 src)))
       OR push_bit 8 (of_nat (over_sum (chan 8 src) (chan 8 dst) (chan 24 src)))
       OR of_nat (over_sum (chan 0 src) (chan 0 dst) (chan 24 src)) \<and>
   (chan 24 src = 255 \<longrightarrow> blend_over src dst = src) \<and>
   blend_over 0 dst = dst"
  using blend_over_sums [of src dst] blend_over_opaque [of src dst] blend_over_zero [of dst]
  by blast

theorem blend_over_channels_witness:
  "chan 24 0xFF102030 = 255 \<and> blend_over 0xFF102030 0x80FFFFFF = 0xFF102030"
  using blend_over_channels [of "0xFF102030" "0x80FFFFFF"]
  by (simp add: chan_def over_sum_def)

text \<open>
  The claim as it was written fails for a transparent source whose colour channels are
  not 0: alpha 0 and white over opaque black gives opaque white, not the destination.
\<close>

theorem blend_over_transparent_counterexample:
  "chan 24 0x00FFFFFF = 0 \<and> blend_over 0x00FFFFFF 0xFF000000 \<noteq> 0xFF000000"
  by (simp add: chan_def blend_over_def)

text \<open>
  C10.  \<^verbatim>\<open>blend_over\<close> does not clamp.  The four channels of the word it returns are
  the four channel sums exactly when every sum is at most 255.  A source of alpha 0 and
  blue 255 over a destination of blue 255 has the blue sum 510; the word returned is
  \<open>0x000001FE\<close>, whose green channel is 1 where the green sum is 0: the bit above the
  blue byte lands in the green channel.
\<close>

theorem blend_over_no_clamp:
  "((chan 24 (blend_over src dst) = over_sum (chan 24 src) (chan 24 dst) (chan 24 src) \<and>
     chan 16 (blend_over src dst) = over_sum (chan 16 src) (chan 16 dst) (chan 24 src) \<and>
     chan 8 (blend_over src dst) = over_sum (chan 8 src) (chan 8 dst) (chan 24 src) \<and>
     chan 0 (blend_over src dst) = over_sum (chan 0 src) (chan 0 dst) (chan 24 src))
    \<longleftrightarrow>
    (over_sum (chan 24 src) (chan 24 dst) (chan 24 src) \<le> 255 \<and>
     over_sum (chan 16 src) (chan 16 dst) (chan 24 src) \<le> 255 \<and>
     over_sum (chan 8 src) (chan 8 dst) (chan 24 src) \<le> 255 \<and>
     over_sum (chan 0 src) (chan 0 dst) (chan 24 src) \<le> 255)) \<and>
   over_sum (chan 0 0x000000FF) (chan 0 0x000000FF) (chan 24 0x000000FF) = 510 \<and>
   over_sum (chan 8 0x000000FF) (chan 8 0x000000FF) (chan 24 0x000000FF) = 0 \<and>
   blend_over 0x000000FF 0x000000FF = 0x000001FE \<and>
   chan 8 (blend_over 0x000000FF 0x000000FF) = 1"
proof -
  let ?A = "over_sum (chan 24 src) (chan 24 dst) (chan 24 src)"
  let ?R = "over_sum (chan 16 src) (chan 16 dst) (chan 24 src)"
  let ?G = "over_sum (chan 8 src) (chan 8 dst) (chan 24 src)"
  let ?B = "over_sum (chan 0 src) (chan 0 dst) (chan 24 src)"
  let ?p = "blend_over src dst"
  have fits: "chan 24 ?p = ?A \<and> chan 16 ?p = ?R \<and> chan 8 ?p = ?G \<and> chan 0 ?p = ?B"
    if "?A \<le> 255 \<and> ?R \<le> 255 \<and> ?G \<le> 255 \<and> ?B \<le> 255"
    using that unfolding blend_over_sums by (simp add: pack_chan)
  have only: "?A \<le> 255 \<and> ?R \<le> 255 \<and> ?G \<le> 255 \<and> ?B \<le> 255"
    if "chan 24 ?p = ?A \<and> chan 16 ?p = ?R \<and> chan 8 ?p = ?G \<and> chan 0 ?p = ?B"
    using that chan_le [of 24 ?p] chan_le [of 16 ?p] chan_le [of 8 ?p] chan_le [of 0 ?p]
    by simp
  have ex: "over_sum (chan 0 0x000000FF) (chan 0 0x000000FF) (chan 24 0x000000FF) = 510 \<and>
   over_sum (chan 8 0x000000FF) (chan 8 0x000000FF) (chan 24 0x000000FF) = 0 \<and>
   blend_over 0x000000FF 0x000000FF = 0x000001FE \<and>
   chan 8 (blend_over 0x000000FF 0x000000FF) = 1"
    by (simp add: chan_def over_sum_def blend_over_def)
  from fits only ex show ?thesis by blast
qed

theorem blend_over_no_clamp_witness:
  "\<not> over_sum (chan 0 0x000000FF) (chan 0 0x000000FF) (chan 24 0x000000FF) \<le> 255 \<and>
   chan 0 (blend_over 0x000000FF 0x000000FF) \<noteq>
     over_sum (chan 0 0x000000FF) (chan 0 0x000000FF) (chan 24 0x000000FF) \<and>
   over_sum (chan 16 0x10203040) (chan 16 0xFF000000) (chan 24 0x10203040) \<le> 255 \<and>
   chan 16 (blend_over 0x10203040 0xFF000000) = 0x20"
  using blend_over_no_clamp [of "0x000000FF" "0x000000FF"]
    blend_over_no_clamp [of "0x10203040" "0xFF000000"]
  by (simp add: chan_def over_sum_def)

text \<open>
  C5.  After \<^verbatim>\<open>draw_gradient_rgb\<close> every pixel \<open>(x, y)\<close> of the surface has alpha 255,
  red \<open>x * 255 / width\<close>, green \<open>y * 255 / height\<close> and blue
  \<open>(x + y) * 127 / (width + height)\<close>, the divisions truncating; the cast to
  \<^verbatim>\<open>uint8_t\<close> loses nothing.  The pixel \<open>(0, 0)\<close> is \<open>0xFF000000\<close>, and the red of
  \<open>(width - 1, 0)\<close> is \<open>(width - 1) * 255 / width\<close>, which is below 255.
\<close>

theorem draw_gradient_rgb_channels:
  "(\<forall>x y. on_surface x y \<longrightarrow>
      chan 24 (pixel (draw_gradient_rgb fb) x y) = 255 \<and>
      int (chan 16 (pixel (draw_gradient_rgb fb) x y)) = (x * 255) sdiv FB_WIDTH \<and>
      int (chan 8 (pixel (draw_gradient_rgb fb) x y)) = (y * 255) sdiv FB_HEIGHT \<and>
      int (chan 0 (pixel (draw_gradient_rgb fb) x y)) = ((x + y) * 127) sdiv (FB_WIDTH + FB_HEIGHT)) \<and>
   pixel (draw_gradient_rgb fb) 0 0 = 0xFF000000 \<and>
   int (chan 16 (pixel (draw_gradient_rgb fb) (FB_WIDTH - 1) 0)) = ((FB_WIDTH - 1) * 255) sdiv FB_WIDTH \<and>
   ((FB_WIDTH - 1) * 255) sdiv FB_WIDTH < 255"
proof -
  have ch: "chan 24 (pixel (draw_gradient_rgb fb) x y) = 255 \<and>
      int (chan 16 (pixel (draw_gradient_rgb fb) x y)) = (x * 255) sdiv FB_WIDTH \<and>
      int (chan 8 (pixel (draw_gradient_rgb fb) x y)) = (y * 255) sdiv FB_HEIGHT \<and>
      int (chan 0 (pixel (draw_gradient_rgb fb) x y)) = ((x + y) * 127) sdiv (FB_WIDTH + FB_HEIGHT)"
    if s: "on_surface x y" for x y
    unfolding draw_gradient_rgb_pixel [OF s] chan_opaque_bytes
    using gradient_bounds [OF s] by (simp add: uint_byte_of_int)
  have o: "on_surface 0 0" "on_surface (FB_WIDTH - 1) 0"
    by (simp_all add: on_surface_def FB_WIDTH_def FB_HEIGHT_def)
  have z: "pixel (draw_gradient_rgb fb) 0 0 = 0xFF000000"
    unfolding draw_gradient_rgb_pixel [OF o(1)] by (simp add: FB_WIDTH_def FB_HEIGHT_def)
  have l: "((FB_WIDTH - 1) * 255) sdiv FB_WIDTH < 255"
    using gradient_bounds(1,5) [OF o(2)] by simp
  from ch o(2) z l show ?thesis by blast
qed

theorem draw_gradient_rgb_channels_witness:
  "on_surface 320 240 \<and> chan 24 (pixel (draw_gradient_rgb (\<lambda>a. 0)) 320 240) = 255 \<and>
   int (chan 16 (pixel (draw_gradient_rgb (\<lambda>a. 0)) 320 240)) = 127 \<and>
   int (chan 8 (pixel (draw_gradient_rgb (\<lambda>a. 0)) 320 240)) = 127 \<and>
   int (chan 0 (pixel (draw_gradient_rgb (\<lambda>a. 0)) 320 240)) = 63"
  using draw_gradient_rgb_channels [of "\<lambda>a. 0"]
  by (simp add: on_surface_def FB_WIDTH_def FB_HEIGHT_def signed_divide_int_def)

text \<open>
  C8.  The surface is 640 wide, which 8 divides: \<^verbatim>\<open>bar_w\<close> is 80 and the 8 bands
  together are as wide as the surface.  After \<^verbatim>\<open>draw_color_bars\<close> every pixel of
  band \<open>k\<close> (columns \<open>k * 80\<close> up to \<open>(k + 1) * 80\<close>, every row of the surface) has the
  \<open>k\<close>-th colour of the fixed order white, yellow, cyan, green, magenta, red, blue,
  black, all of alpha 255; no byte outside the surface changes.
\<close>

theorem draw_color_bars_bands:
  "FB_WIDTH sdiv 8 = 80 \<and> 8 * (FB_WIDTH sdiv 8) = FB_WIDTH \<and>
   colors = [0xFFFFFFFF, 0xFFFFFF00, 0xFF00FFFF, 0xFF00FF00,
             0xFFFF00FF, 0xFFFF0000, 0xFF0000FF, 0xFF000000] \<and>
   (0 \<le> k \<and> k < 8 \<and> k * (FB_WIDTH sdiv 8) \<le> x \<and> x < (k + 1) * (FB_WIDTH sdiv 8) \<and>
        0 \<le> y \<and> y < FB_HEIGHT \<longrightarrow>
      pixel (draw_color_bars fb) x y = colors ! nat k \<and>
      chan 24 (pixel (draw_color_bars fb) x y) = 255) \<and>
   (outside a \<longrightarrow> draw_color_bars fb a = fb a)"
proof -
  have band: "pixel (draw_color_bars fb) x y = colors ! nat k \<and>
      chan 24 (pixel (draw_color_bars fb) x y) = 255"
    if h: "0 \<le> k \<and> k < 8 \<and> k * (FB_WIDTH sdiv 8) \<le> x \<and> x < (k + 1) * (FB_WIDTH sdiv 8) \<and>
        0 \<le> y \<and> y < FB_HEIGHT"
  proof -
    from h have k: "0 \<le> k" "k < 8" "k * 80 \<le> x" "x < (k + 1) * 80" "0 \<le> y" "y < FB_HEIGHT"
      by (simp_all add: bar_w)
    then have s: "on_surface x y"
      by (simp add: on_surface_def FB_WIDTH_def)
    have "x div 80 = k" using k by (intro div_band) auto
    then have p: "pixel (draw_color_bars fb) x y = colors ! nat k"
      by (simp add: draw_color_bars_pixel [OF s])
    have "nat k \<in> {0, 1, 2, 3, 4, 5, 6, 7}" using k by auto
    then have "chan 24 (colors ! nat k) = 255"
      by (auto simp: colors_def chan_def)
    with p show ?thesis by simp
  qed
  have w: "FB_WIDTH sdiv 8 = 80 \<and> 8 * (FB_WIDTH sdiv 8) = FB_WIDTH"
    by (simp add: bar_w) (simp add: FB_WIDTH_def)
  have c: "colors = [0xFFFFFFFF, 0xFFFFFF00, 0xFF00FFFF, 0xFF00FF00,
             0xFFFF00FF, 0xFFFF0000, 0xFF0000FF, 0xFF000000]"
    by (simp add: colors_def)
  from band w c draw_color_bars_outside [of a fb] show ?thesis
    by blast
qed

theorem draw_color_bars_bands_witness:
  "pixel (draw_color_bars (\<lambda>a. 0)) 100 7 = 0xFFFFFF00 \<and>
   pixel (draw_color_bars (\<lambda>a. 0)) 639 479 = 0xFF000000 \<and>
   outside (- 4) \<and> draw_color_bars (\<lambda>a. 0) (- 4) = 0"
proof -
  have o: "outside (- 4)" by (simp add: outside_def)
  have c: "colors ! nat 1 = 0xFFFFFF00" "colors ! nat 7 = 0xFF000000"
    by (simp_all add: colors_def)
  have h1: "0 \<le> (1::int) \<and> (1::int) < 8 \<and> 1 * (FB_WIDTH sdiv 8) \<le> 100 \<and>
      100 < (1 + 1) * (FB_WIDTH sdiv 8) \<and> 0 \<le> (7::int) \<and> 7 < FB_HEIGHT"
    unfolding bar_w by (simp add: FB_HEIGHT_def)
  have h7: "0 \<le> (7::int) \<and> (7::int) < 8 \<and> 7 * (FB_WIDTH sdiv 8) \<le> 639 \<and>
      639 < (7 + 1) * (FB_WIDTH sdiv 8) \<and> 0 \<le> (479::int) \<and> 479 < FB_HEIGHT"
    unfolding bar_w by (simp add: FB_HEIGHT_def)
  from h1 draw_color_bars_bands [of 1 100 7 "\<lambda>a. 0" "- 4"]
  have "pixel (draw_color_bars (\<lambda>a. 0)) 100 7 = colors ! nat 1" by blast
  moreover from h7 draw_color_bars_bands [of 7 639 479 "\<lambda>a. 0" "- 4"]
  have "pixel (draw_color_bars (\<lambda>a. 0)) 639 479 = colors ! nat 7" by blast
  moreover from o draw_color_bars_bands [of 7 639 479 "\<lambda>a. 0" "- 4"]
  have "draw_color_bars (\<lambda>a. 0) (- 4) = 0" by blast
  ultimately show ?thesis using o c by (simp only: simp_thms)
qed

text \<open>
  C7.  For a well-formed indexed image of size \<open>w \<times> h\<close>, \<^verbatim>\<open>draw_official_logo\<close> with
  the centre \<open>(cx, cy)\<close> puts the image with its top-left corner at
  \<open>(cx - w / 2, cy - h / 2)\<close>, the halving truncating: a pixel \<open>(X, Y)\<close> of the surface
  inside that rectangle becomes the colour of the source pixel
  \<open>(X - (cx - w / 2), Y - (cy - h / 2))\<close>, whatever it held before (nothing is
  blended), and a pixel of the surface outside the rectangle keeps its value.  The
  colour of a source pixel has alpha 255 and the red, green and blue of the palette entry
  its index selects.  The part of the image that is off the surface is dropped: no byte
  outside the surface changes.
\<close>

theorem draw_official_logo_blit:
  assumes "logo_ok L"
  shows "(on_surface X Y \<longrightarrow>
      pixel (draw_official_logo L fb cx cy) X Y =
        (if cx - (logo_linux_clut224_width L sdiv 2) \<le> X \<and>
            X < cx - (logo_linux_clut224_width L sdiv 2) + logo_linux_clut224_width L \<and>
            cy - (logo_linux_clut224_height L sdiv 2) \<le> Y \<and>
            Y < cy - (logo_linux_clut224_height L sdiv 2) + logo_linux_clut224_height L
         then logo_color L (X - (cx - (logo_linux_clut224_width L sdiv 2)))
                (Y - (cy - (logo_linux_clut224_height L sdiv 2)))
         else pixel fb X Y)) \<and>
    chan 24 (logo_color L px py) = 255 \<and>
    chan 16 (logo_color L px py) =
      unat (logo_linux_clut224_clut L !
        (unat (logo_linux_clut224_data L ! nat (py * logo_linux_clut224_width L + px)) * 3 + 0)) \<and>
    chan 8 (logo_color L px py) =
      unat (logo_linux_clut224_clut L !
        (unat (logo_linux_clut224_data L ! nat (py * logo_linux_clut224_width L + px)) * 3 + 1)) \<and>
    chan 0 (logo_color L px py) =
      unat (logo_linux_clut224_clut L !
        (unat (logo_linux_clut224_data L ! nat (py * logo_linux_clut224_width L + px)) * 3 + 2)) \<and>
    (outside a \<longrightarrow> draw_official_logo L fb cx cy a = fb a)"
  using draw_official_logo_pixel [of X Y L fb cx cy] logo_color_chan [of L px py]
    draw_official_logo_outside [of a L fb cx cy]
  by blast

theorem draw_official_logo_blit_witness:
  "logo_ok \<lparr>logo_linux_clut224_width = 2, logo_linux_clut224_height = 2,
             logo_linux_clut224_data = [0, 1, 1, 0],
             logo_linux_clut224_clut = [1, 2, 3, 4, 5, 6]\<rparr> \<and>
   on_surface 9 9 \<and> on_surface 10 9 \<and> on_surface 11 9 \<and>
   pixel (draw_official_logo
            \<lparr>logo_linux_clut224_width = 2, logo_linux_clut224_height = 2,
             logo_linux_clut224_data = [0, 1, 1, 0],
             logo_linux_clut224_clut = [1, 2, 3, 4, 5, 6]\<rparr> (\<lambda>a. 0x77) 10 10) 9 9 = 0xFF010203 \<and>
   pixel (draw_official_logo
            \<lparr>logo_linux_clut224_width = 2, logo_linux_clut224_height = 2,
             logo_linux_clut224_data = [0, 1, 1, 0],
             logo_linux_clut224_clut = [1, 2, 3, 4, 5, 6]\<rparr> (\<lambda>a. 0x77) 10 10) 10 9 = 0xFF040506 \<and>
   pixel (draw_official_logo
            \<lparr>logo_linux_clut224_width = 2, logo_linux_clut224_height = 2,
             logo_linux_clut224_data = [0, 1, 1, 0],
             logo_linux_clut224_clut = [1, 2, 3, 4, 5, 6]\<rparr> (\<lambda>a. 0x77) 10 10) 11 9 = 0x77777777"
proof -
  let ?L = "\<lparr>logo_linux_clut224_width = 2, logo_linux_clut224_height = 2,
             logo_linux_clut224_data = [0, 1, 1, 0],
             logo_linux_clut224_clut = [1, 2, 3, 4, 5, 6]\<rparr>"
  have ok: "logo_ok ?L" by (simp add: logo_ok_def)
  have s: "on_surface 9 9" "on_surface 10 9" "on_surface 11 9"
    by (simp_all add: on_surface_def FB_WIDTH_def FB_HEIGHT_def)
  have h: "(2 :: int) sdiv 2 = 1" by (simp add: signed_divide_int_def)
  have c: "logo_color ?L 0 0 = 0xFF010203" "logo_color ?L 1 0 = 0xFF040506"
    by (simp_all add: logo_color_def)
  have bg: "pixel (\<lambda>a. 0x77) 11 9 = 0x77777777" by (simp add: pixel_def rd32_def)
  have "pixel (draw_official_logo ?L (\<lambda>a. 0x77) 10 10) 9 9 = 0xFF010203"
    using draw_official_logo_blit [OF ok, of 9 9 "\<lambda>a. 0x77" 10 10] s(1) c(1) by (simp add: h)
  moreover have "pixel (draw_official_logo ?L (\<lambda>a. 0x77) 10 10) 10 9 = 0xFF040506"
    using draw_official_logo_blit [OF ok, of 10 9 "\<lambda>a. 0x77" 10 10] s(2) c(2) by (simp add: h)
  moreover have "pixel (draw_official_logo ?L (\<lambda>a. 0x77) 10 10) 11 9 = 0x77777777"
    using draw_official_logo_blit [OF ok, of 11 9 "\<lambda>a. 0x77" 10 10] s(3) bg by (simp add: h)
  ultimately show ?thesis using ok s by (simp only: simp_thms)
qed

text \<open>
  C6.  For a well-formed indexed image of size \<open>w \<times> h\<close>, \<^verbatim>\<open>draw_multiple_logos\<close> first
  sets every byte of the surface to zero and then draws copies \<open>0, 1, \<dots>\<close> one after the
  other, copy \<open>k\<close> with its top-left corner at \<open>(grid_x L k, grid_y L k)\<close>: column
  \<open>k mod 4\<close> and row \<open>k div 4\<close> of a grid of 4 columns with a margin of 20, centred
  horizontally.  The number of copies drawn is at most the count asked for; every copy
  drawn has its row inside the surface height; and when fewer copies are drawn than were
  asked for, the row of the first copy left out would pass the surface height.  So a
  count \<open>N \<ge> 1\<close> whose last row passes the height gets fewer than \<open>N\<close> copies.  Each
  copy is written through \<^verbatim>\<open>put_pixel\<close>, and no byte outside the surface changes.
\<close>

theorem draw_multiple_logos_grid:
  assumes "logo_ok L"
  shows "0 \<le> logos_placed L fb count \<and> logos_placed L fb count \<le> max 0 count \<and>
    (0 \<le> k \<and> k < logos_placed L fb count \<longrightarrow>
       grid_y L k + logo_linux_clut224_height L \<le> FB_HEIGHT) \<and>
    (logos_placed L fb count < count \<longrightarrow>
       grid_y L (logos_placed L fb count) + logo_linux_clut224_height L > FB_HEIGHT) \<and>
    (1 \<le> count \<and> grid_y L (count - 1) + logo_linux_clut224_height L > FB_HEIGHT \<longrightarrow>
       logos_placed L fb count < count) \<and>
    draw_multiple_logos L fb count =
      fold (\<lambda>k fb'. draw_official_logo L fb' (grid_x L k + logo_linux_clut224_width L sdiv 2)
                      (grid_y L k + logo_linux_clut224_height L sdiv 2))
        [0..logos_placed L fb count - 1] (memset fb 0 FB_SIZE) \<and>
    (on_surface X Y \<longrightarrow>
       pixel (draw_official_logo L fb' (grid_x L k + logo_linux_clut224_width L sdiv 2)
                (grid_y L k + logo_linux_clut224_height L sdiv 2)) X Y =
         (if grid_x L k \<le> X \<and> X < grid_x L k + logo_linux_clut224_width L \<and>
             grid_y L k \<le> Y \<and> Y < grid_y L k + logo_linux_clut224_height L
          then logo_color L (X - grid_x L k) (Y - grid_y L k) else pixel fb' X Y)) \<and>
    (0 \<le> a \<and> a < FB_SIZE \<longrightarrow> memset fb 0 FB_SIZE a = 0) \<and>
    (outside a \<longrightarrow> draw_multiple_logos L fb count a = fb a)"
proof -
  have z: "0 \<le> a \<and> a < FB_SIZE \<longrightarrow> memset fb 0 FB_SIZE a = 0"
    by (simp add: memset_def)
  from z logos_placed_bounds [of L fb count] logos_placed_fit [of k L fb count]
    logos_placed_break [of L fb count] logos_placed_fewer [of count L fb]
    draw_multiple_logos_fold [of L fb count] grid_copy_pixel [of X Y L fb' k]
    draw_multiple_logos_outside [of a L fb count]
  show ?thesis by blast
qed

theorem draw_multiple_logos_grid_witness:
  "logo_ok \<lparr>logo_linux_clut224_width = 1, logo_linux_clut224_height = 3,
             logo_linux_clut224_data = [0, 0, 0], logo_linux_clut224_clut = [1, 2, 3]\<rparr> \<and>
   grid_y \<lparr>logo_linux_clut224_width = 1, logo_linux_clut224_height = 3,
             logo_linux_clut224_data = [0, 0, 0], logo_linux_clut224_clut = [1, 2, 3]\<rparr> 99 + 3
     > FB_HEIGHT \<and>
   logos_placed \<lparr>logo_linux_clut224_width = 1, logo_linux_clut224_height = 3,
             logo_linux_clut224_data = [0, 0, 0], logo_linux_clut224_clut = [1, 2, 3]\<rparr>
     (\<lambda>a. 0x55) 100 < 100 \<and>
   outside (- 1) \<and>
   draw_multiple_logos \<lparr>logo_linux_clut224_width = 1, logo_linux_clut224_height = 3,
             logo_linux_clut224_data = [0, 0, 0], logo_linux_clut224_clut = [1, 2, 3]\<rparr>
     (\<lambda>a. 0x55) 100 (- 1) = 0x55 \<and>
   memset (\<lambda>a. 0x55) 0 FB_SIZE 7 = 0"
proof -
  let ?L = "\<lparr>logo_linux_clut224_width = 1, logo_linux_clut224_height = 3,
             logo_linux_clut224_data = [0, 0, 0], logo_linux_clut224_clut = [1, 2, 3]\<rparr>"
  have ok: "logo_ok ?L" by (simp add: logo_ok_def)
  have g: "grid_y ?L 99 + 3 > FB_HEIGHT" by (simp add: grid_y_def FB_HEIGHT_def)
  have o: "outside (- 1)" by (simp add: outside_def)
  have i: "(0 :: int) \<le> 7 \<and> 7 < FB_SIZE"
    by (simp add: FB_SIZE_def FB_WIDTH_def FB_HEIGHT_def FB_BPP_def)
  have n: "(1 :: int) \<le> 100 \<and> grid_y ?L (100 - 1) + logo_linux_clut224_height ?L > FB_HEIGHT"
    using g by simp
  note t = draw_multiple_logos_grid [OF ok, of "\<lambda>a. 0x55" 100 0 0 0 "\<lambda>a. 0"]
  from n t [of "- 1"] have "logos_placed ?L (\<lambda>a. 0x55) 100 < 100" by blast
  moreover from o t [of "- 1"] have "draw_multiple_logos ?L (\<lambda>a. 0x55) 100 (- 1) = 0x55" by blast
  moreover from i t [of 7] have "memset (\<lambda>a. 0x55) 0 FB_SIZE 7 = 0" by blast
  ultimately show ?thesis using ok g o by (simp only: simp_thms)
qed

end
